theory Spec2Isabelle
  imports Main
begin

section \<open>Go values the package relies on\<close>

text \<open>
  A Go \<open>error\<close> is an opaque value; \<open>nil\<close> is \<open>None\<close> of \<open>error option\<close>.
  \<open>Wrapped\<close> is what \<open>fmt.Errorf("...: %w", err)\<close> builds.
\<close>

datatype error = Error string | Wrapped string error

text \<open>Calling a method through a nil pointer panics.\<close>

datatype panic = NilPointerDereference

text \<open>
  \<open>sync.RWMutex\<close>, from its contract: any number of readers or one writer hold it.
  An acquisition that has to wait is \<open>None\<close>: the caller does not go on until another
  goroutine releases the lock.
\<close>

record RWMutex =
  readers :: nat
  writer :: bool

definition unlocked :: RWMutex where
  "unlocked = \<lparr>readers = 0, writer = False\<rparr>"

definition RLock :: "RWMutex \<Rightarrow> RWMutex option" where
  "RLock m = (if writer m then None else Some (m\<lparr>readers := readers m + 1\<rparr>))"

definition RUnlock :: "RWMutex \<Rightarrow> RWMutex" where
  "RUnlock m = m\<lparr>readers := readers m - 1\<rparr>"

definition Lock :: "RWMutex \<Rightarrow> RWMutex option" where
  "Lock m = (if writer m \<or> readers m \<noteq> 0 then None else Some (m\<lparr>writer := True\<rparr>))"

definition Unlock :: "RWMutex \<Rightarrow> RWMutex" where
  "Unlock m = m\<lparr>writer := False\<rparr>"

section \<open>Cache\<close>

text \<open>
  \<open>type Cache[T any] struct { lock; data T; valid bool; factory func(ctx) (T, error) }\<close>.
  The factory is a closure over an external source: it reads (and may change) a world
  \<open>'w\<close> and returns the pair \<open>(T, error)\<close> as Go does.
\<close>

record ('a, 'c, 'w) Cache =
  lock :: RWMutex
  data :: 'a
  valid :: bool
  factory :: "'c \<Rightarrow> 'w \<Rightarrow> ('a \<times> error option) \<times> 'w"

text \<open>\<open>NewCache\<close>: \<open>&Cache[T]{factory: factory}\<close>; every other field has its zero value.\<close>

definition NewCache :: "('c \<Rightarrow> 'w \<Rightarrow> ('a \<times> error option) \<times> 'w) \<Rightarrow> ('a::default, 'c, 'w) Cache" where
  "NewCache f = \<lparr>lock = unlocked, data = default, valid = False, factory = f\<rparr>"

text \<open>
  \<open>Cache.Get\<close>, run by one goroutine without interruption. The result is the returned
  pair, the cache and the world afterwards; \<open>None\<close> when the goroutine waits on the lock.
  The deferred \<open>Unlock\<close> runs after the operands of \<open>return\<close> are evaluated.
\<close>

definition Cache_Get ::
  "('a, 'c, 'w) Cache \<Rightarrow> 'c \<Rightarrow> 'w \<Rightarrow> (('a \<times> error option) \<times> ('a, 'c, 'w) Cache \<times> 'w) option" where
  "Cache_Get ct ctx w =
    (case RLock (lock ct) of
      None \<Rightarrow> None
    | Some l1 \<Rightarrow>
        let valid0 = valid ct;
            data0 = data ct;
            ct1 = ct\<lparr>lock := RUnlock l1\<rparr>
        in if valid0 then Some ((data0, None), ct1, w)
           else (case Lock (lock ct1) of
              None \<Rightarrow> None
            | Some l2 \<Rightarrow>
                let ct2 = ct1\<lparr>lock := l2\<rparr>
                in if valid ct2 then Some ((data ct2, None), ct2\<lparr>lock := Unlock l2\<rparr>, w)
                   else (case factory ct2 ctx w of
                      ((val, e), w') \<Rightarrow>
                        if e \<noteq> None then Some ((data ct2, e), ct2\<lparr>lock := Unlock l2\<rparr>, w')
                        else let ct3 = ct2\<lparr>data := val, valid := True\<rparr>
                             in Some ((data ct3, None), ct3\<lparr>lock := Unlock l2\<rparr>, w'))))"

text \<open>\<open>Cache.Refresh\<close>: the factory is called under the exclusive lock, whatever \<open>valid\<close> is.\<close>

definition Refresh ::
  "('a, 'c, 'w) Cache \<Rightarrow> 'c \<Rightarrow> 'w \<Rightarrow> (error option \<times> ('a, 'c, 'w) Cache \<times> 'w) option" where
  "Refresh ct ctx w =
    (case Lock (lock ct) of
      None \<Rightarrow> None
    | Some l \<Rightarrow>
        let ct1 = ct\<lparr>lock := l\<rparr>
        in (case factory ct1 ctx w of
          ((val, e), w') \<Rightarrow>
            if e \<noteq> None then Some (e, ct1\<lparr>lock := Unlock l\<rparr>, w')
            else Some (None, ct1\<lparr>data := val, valid := True, lock := Unlock l\<rparr>, w')))"

text \<open>\<open>Cache.Invalidate\<close>.\<close>

definition Invalidate :: "('a, 'c, 'w) Cache \<Rightarrow> ('a, 'c, 'w) Cache option" where
  "Invalidate ct =
    (case Lock (lock ct) of
      None \<Rightarrow> None
    | Some l \<Rightarrow> Some (ct\<lparr>lock := Unlock l, valid := False\<rparr>))"

text \<open>
  A factory instrumented with a call counter: the world is paired with the number of
  invocations so far.
\<close>

definition counting ::
  "('c \<Rightarrow> 'w \<Rightarrow> 'r \<times> 'w) \<Rightarrow> 'c \<Rightarrow> nat \<times> 'w \<Rightarrow> 'r \<times> (nat \<times> 'w)" where
  "counting f ctx = (\<lambda>(n, w). case f ctx w of (r, w') \<Rightarrow> (r, (Suc n, w')))"

text \<open>
  A caller that calls \<open>Get\<close> once after each of a list of changes to the external source
  (the shape of \<open>TestCacheGet\<close>: \<open>Get\<close>, \<open>UPDATE\<close>, \<open>Get\<close>).
\<close>

fun Get_after_each ::
  "('a, 'c, 'w) Cache \<Rightarrow> 'c \<Rightarrow> ('w \<Rightarrow> 'w) list \<Rightarrow> 'w \<Rightarrow>
     (('a \<times> error option) list \<times> ('a, 'c, 'w) Cache \<times> 'w) option" where
  "Get_after_each ct ctx [] w = Some ([], ct, w)"
| "Get_after_each ct ctx (m # ms) w =
    (case Cache_Get ct ctx (m w) of
      None \<Rightarrow> None
    | Some (r, ct', w') \<Rightarrow>
        (case Get_after_each ct' ctx ms w' of
          None \<Rightarrow> None
        | Some (rs, ct'', w'') \<Rightarrow> Some (r # rs, ct'', w'')))"

section \<open>Concurrent calls of Cache.Get\<close>

text \<open>
  Several goroutines inside \<open>Cache.Get\<close> on one cache. Every access of \<open>Get\<close> to the
  fields of the cache is made under the lock, so the calls interleave statement by
  statement. A call is at one of the places below; its local variables (\<open>valid\<close>,
  \<open>data\<close>, \<open>value\<close>, \<open>err\<close>) travel with the place.
  \<^item> \<open>Call\<close>: before \<open>ct.lock.RLock()\<close>;
  \<^item> \<open>RLocked\<close>: before \<open>valid := ct.valid\<close>;
  \<^item> \<open>ReadValid valid\<close>: before \<open>data := ct.data\<close>;
  \<^item> \<open>ReadData valid data\<close>: before \<open>ct.lock.RUnlock()\<close>;
  \<^item> \<open>RUnlocked valid data\<close>: before \<open>if valid { return data, nil }\<close>;
  \<^item> \<open>Miss\<close>: before \<open>ct.lock.Lock()\<close>;
  \<^item> \<open>Locked\<close>: before \<open>if ct.valid { return ct.data, nil }\<close>;
  \<^item> \<open>Fill\<close>: before \<open>value, err := ct.factory(ctx)\<close>;
  \<^item> \<open>Produced value err\<close>: before \<open>if err != nil { return ct.data, err }\<close>;
  \<^item> \<open>Store value\<close>: before \<open>ct.data = value\<close>;
  \<^item> \<open>Stored\<close>: before \<open>ct.valid = true\<close>;
  \<^item> \<open>Validated\<close>: before \<open>return ct.data, nil\<close>;
  \<^item> \<open>Returned data err\<close>: the call has returned this pair.
  A \<open>return\<close> under the exclusive lock evaluates its operands and runs the deferred
  \<open>Unlock\<close> in one step.
\<close>

datatype 'a Get_call =
    Call
  | RLocked
  | ReadValid bool
  | ReadData bool 'a
  | RUnlocked bool 'a
  | Miss
  | Locked
  | Fill
  | Produced 'a "error option"
  | Store 'a
  | Stored
  | Validated
  | Returned 'a "error option"

text \<open>
  One statement of \<open>Get\<close>, by a call at \<open>pc\<close>: the next place, the cache and the world
  afterwards; \<open>None\<close> when the call waits for the lock or has returned.
\<close>

definition Get_step ::
  "'c \<Rightarrow> ('a, 'c, 'w) Cache \<Rightarrow> 'w \<Rightarrow> 'a Get_call \<Rightarrow>
     ('a Get_call \<times> ('a, 'c, 'w) Cache \<times> 'w) option" where
  "Get_step ctx ct w pc =
    (case pc of
      Call \<Rightarrow>
        (case RLock (lock ct) of None \<Rightarrow> None | Some l \<Rightarrow> Some (RLocked, ct\<lparr>lock := l\<rparr>, w))
    | RLocked \<Rightarrow> Some (ReadValid (valid ct), ct, w)
    | ReadValid b \<Rightarrow> Some (ReadData b (data ct), ct, w)
    | ReadData b d \<Rightarrow> Some (RUnlocked b d, ct\<lparr>lock := RUnlock (lock ct)\<rparr>, w)
    | RUnlocked b d \<Rightarrow> Some (if b then Returned d None else Miss, ct, w)
    | Miss \<Rightarrow>
        (case Lock (lock ct) of None \<Rightarrow> None | Some l \<Rightarrow> Some (Locked, ct\<lparr>lock := l\<rparr>, w))
    | Locked \<Rightarrow>
        if valid ct then Some (Returned (data ct) None, ct\<lparr>lock := Unlock (lock ct)\<rparr>, w)
        else Some (Fill, ct, w)
    | Fill \<Rightarrow> (case factory ct ctx w of ((val, e), w') \<Rightarrow> Some (Produced val e, ct, w'))
    | Produced val e \<Rightarrow>
        if e \<noteq> None then Some (Returned (data ct) e, ct\<lparr>lock := Unlock (lock ct)\<rparr>, w)
        else Some (Store val, ct, w)
    | Store val \<Rightarrow> Some (Stored, ct\<lparr>data := val\<rparr>, w)
    | Stored \<Rightarrow> Some (Validated, ct\<lparr>valid := True\<rparr>, w)
    | Validated \<Rightarrow> Some (Returned (data ct) None, ct\<lparr>lock := Unlock (lock ct)\<rparr>, w)
    | Returned d e \<Rightarrow> None)"

text \<open>
  The calls, the cache and the world they share (all calls are made with the same
  context); \<open>n\<close> calls launched together; a step of the \<open>i\<close>-th call; a schedule, which
  names the call that moves at each step. The factory runs in one step: it runs under
  the exclusive lock and nothing else touches the world. The lock of the model lets a
  reader in whenever no writer holds it; \<open>sync.RWMutex\<close> also makes new readers wait
  once a writer waits, which takes schedules away and adds none.
\<close>

record ('a, 'c, 'w) system =
  shared :: "('a, 'c, 'w) Cache"
  world :: 'w
  calls :: "'a Get_call list"

definition launch :: "nat \<Rightarrow> ('a, 'c, 'w) Cache \<Rightarrow> 'w \<Rightarrow> ('a, 'c, 'w) system" where
  "launch n ct w = \<lparr>shared = ct, world = w, calls = replicate n Call\<rparr>"

definition step :: "'c \<Rightarrow> nat \<Rightarrow> ('a, 'c, 'w) system \<Rightarrow> ('a, 'c, 'w) system option" where
  "step ctx i s =
    (if length (calls s) \<le> i then None
     else case Get_step ctx (shared s) (world s) (calls s ! i) of
       None \<Rightarrow> None
     | Some (pc, ct, w) \<Rightarrow> Some \<lparr>shared = ct, world = w, calls = (calls s)[i := pc]\<rparr>)"

fun exec :: "'c \<Rightarrow> nat list \<Rightarrow> ('a, 'c, 'w) system \<Rightarrow> ('a, 'c, 'w) system option" where
  "exec ctx [] s = Some s"
| "exec ctx (i # sched) s = (case step ctx i s of None \<Rightarrow> None | Some s' \<Rightarrow> exec ctx sched s')"


section \<open>The query executor\<close>

text \<open>
  A Go slice is nil (\<open>None\<close>) or holds elements (\<open>Some xs\<close>; \<open>make([]T, 0)\<close> is
  \<open>Some []\<close>). \<open>append\<close> on a nil slice allocates.
\<close>

definition append_slice :: "'a list option \<Rightarrow> 'a \<Rightarrow> 'a list option" where
  "append_slice s x = (case s of None \<Rightarrow> Some [x] | Some xs \<Rightarrow> Some (xs @ [x]))"

text \<open>
  The executor (\<open>sqlx.QueryerContext\<close>) and its cursor (\<open>sqlx.Rows\<close>, which embeds
  \<open>sql.Rows\<close>) belong to libraries the package imports. They are modelled from the
  contract of \<open>database/sql\<close>. A database answers a query with an error or with a
  result set: for every row what scanning it stores in the destination and the error
  scanning it returns, and the error the driver reports when the rows run out
  (\<open>None\<close> at a clean end).
\<close>

type_synonym 'a result_set = "('a \<times> error option) list \<times> error option"

type_synonym ('a, 'c, 'q) database = "'c \<Rightarrow> 'q \<Rightarrow> error + 'a result_set"

record 'a sqlx_Rows =
  feed :: "('a \<times> error option) list"
  end_err :: "error option"
  current :: "('a \<times> error option) option"
  lasterr :: "error option"
  closed :: bool
  closes :: nat

definition open_cursor :: "'a result_set \<Rightarrow> 'a sqlx_Rows" where
  "open_cursor rs =
    \<lparr>feed = fst rs, end_err = snd rs, current = None, lasterr = None, closed = False, closes = 0\<rparr>"

text \<open>
  \<open>Rows.Next\<close>: false on a closed cursor; at the end of the rows it records the driver's
  error and closes the cursor by itself; otherwise it moves to the next row.
\<close>

definition Rows_Next :: "'a sqlx_Rows \<Rightarrow> bool \<times> 'a sqlx_Rows" where
  "Rows_Next r =
    (if closed r then (False, r)
     else case feed r of
       [] \<Rightarrow> (False, r\<lparr>current := None, lasterr := end_err r, closed := True\<rparr>)
     | x # xs \<Rightarrow> (True, r\<lparr>feed := xs, current := Some x\<rparr>))"

definition Rows_Err :: "'a sqlx_Rows \<Rightarrow> error option" where
  "Rows_Err r = lasterr r"

text \<open>\<open>Rows.Close\<close> is idempotent; \<open>closes\<close> counts the calls.\<close>

definition Rows_Close :: "'a sqlx_Rows \<Rightarrow> error option \<times> 'a sqlx_Rows" where
  "Rows_Close r = (None, r\<lparr>current := None, closed := True, closes := closes r + 1\<rparr>)"

text \<open>
  \<open>Rows.StructScan(&dest)\<close>: the destination afterwards and the error. Scanning does not
  move or close the cursor.
\<close>

definition StructScan :: "'a sqlx_Rows \<Rightarrow> 'a \<Rightarrow> 'a \<times> error option" where
  "StructScan r dest =
    (if closed r then (dest, Some (Error ''sql: Rows are closed''))
     else case current r of
       None \<Rightarrow> (dest, Some (Error ''sql: Scan called without calling Next''))
     | Some (v, e) \<Rightarrow> (v, e))"

text \<open>\<open>QueryxContext\<close> returns \<open>(nil, err)\<close> or \<open>(rows, nil)\<close>.\<close>

definition QueryxContext ::
  "('a, 'c, 'q) database \<Rightarrow> 'c \<Rightarrow> 'q \<Rightarrow> 'a sqlx_Rows option \<times> error option" where
  "QueryxContext db ctx q =
    (case db ctx q of Inl e \<Rightarrow> (None, Some e) | Inr rs \<Rightarrow> (Some (open_cursor rs), None))"

text \<open>
  \<open>sqlx.SelectContext(ctx, db, &dest, query, args...)\<close>: runs the query and appends every
  scanned row to the destination slice; it stops at the first error.
\<close>

fun scanAll ::
  "('a \<times> error option) list \<Rightarrow> error option \<Rightarrow> 'a list option \<Rightarrow> 'a list option \<times> error option" where
  "scanAll [] fault dest = (dest, fault)"
| "scanAll ((v, e) # rs) fault dest =
    (if e \<noteq> None then (dest, e) else scanAll rs fault (append_slice dest v))"

definition SelectContext ::
  "'c \<Rightarrow> ('a, 'c, 'q) database \<Rightarrow> 'a list option \<Rightarrow> 'q \<Rightarrow> 'a list option \<times> error option" where
  "SelectContext ctx db dest q =
    (case db ctx q of Inl e \<Rightarrow> (dest, Some e) | Inr rs \<Rightarrow> scanAll (fst rs) (snd rs) dest)"

section \<open>List\<close>

text \<open>
  \<open>List\<close>: \<open>results = make([]T, 0)\<close>, then \<open>return results, sqlx.SelectContext(ctx, db,
  &results, query, args...)\<close>. The query and its arguments are one value \<open>'q\<close>. The
  returned slice is \<open>results\<close> as the call leaves it (what the Go compiler does, and what
  \<open>TestList\<close> expects).
\<close>

definition List :: "'c \<Rightarrow> ('a, 'c, 'q) database \<Rightarrow> 'q \<Rightarrow> 'a list option \<times> error option" where
  "List ctx db q =
    (let results = Some []
     in case SelectContext ctx db results q of (results', e) \<Rightarrow> (results', e))"

section \<open>Iterator\<close>

text \<open>\<open>type Iterator[T any] struct { err error; rows *sqlx.Rows }\<close>; a nil pointer is \<open>None\<close>.\<close>

record 'a Iterator =
  err :: "error option"
  rows :: "'a sqlx_Rows option"

definition Iterate :: "'c \<Rightarrow> ('a, 'c, 'q) database \<Rightarrow> 'q \<Rightarrow> 'a Iterator" where
  "Iterate ctx db q = (case QueryxContext db ctx q of (r, e) \<Rightarrow> \<lparr>err = e, rows = r\<rparr>)"

definition Rows :: "'a sqlx_Rows option \<Rightarrow> 'a Iterator" where
  "Rows r = \<lparr>err = None, rows = r\<rparr>"

text \<open>
  \<open>NamedStatement.Iterate\<close>; \<open>named\<close> is \<open>sqlx.Named\<close> applied to the statement: it binds
  the argument and yields the query, or fails.
\<close>

definition NamedStatement_Iterate ::
  "('p \<Rightarrow> error + 'q) \<Rightarrow> 'c \<Rightarrow> ('a, 'c, 'q) database \<Rightarrow> 'p \<Rightarrow> 'a Iterator" where
  "NamedStatement_Iterate named ctx db arg =
    (case named arg of
      Inl e \<Rightarrow> \<lparr>err = Some (Wrapped ''prepare SQL: '' e), rows = None\<rparr>
    | Inr q \<Rightarrow> Iterate ctx db q)"

definition Next :: "'a Iterator \<Rightarrow> panic + (bool \<times> 'a Iterator)" where
  "Next it =
    (if err it \<noteq> None then Inr (False, it)
     else case rows it of
       None \<Rightarrow> Inl NilPointerDereference
     | Some r \<Rightarrow> (case Rows_Next r of (ok, r') \<Rightarrow> Inr (ok, it\<lparr>rows := Some r'\<rparr>)))"

definition Err :: "'a Iterator \<Rightarrow> panic + error option" where
  "Err it =
    (if err it \<noteq> None then Inr (err it)
     else case rows it of
       None \<Rightarrow> Inl NilPointerDereference
     | Some r \<Rightarrow> Inr (Rows_Err r))"

definition Close :: "'a Iterator \<Rightarrow> panic + (error option \<times> 'a Iterator)" where
  "Close it =
    (case rows it of
      None \<Rightarrow> Inl NilPointerDereference
    | Some r \<Rightarrow> (case Rows_Close r of (e, r') \<Rightarrow> Inr (e, it\<lparr>rows := Some r'\<rparr>)))"

text \<open>\<open>Iterator.Get\<close>: \<open>var result T\<close> is the zero value of \<open>T\<close>.\<close>

definition Iterator_Get :: "'a::default Iterator \<Rightarrow> panic + ('a \<times> error option)" where
  "Iterator_Get it =
    (let result = default
     in case rows it of
       None \<Rightarrow> Inl NilPointerDereference
     | Some r \<Rightarrow>
         if Rows_Err r \<noteq> None then Inr (result, Rows_Err r)
         else Inr (StructScan r result))"

text \<open>The loop of \<open>Collect\<close> and its final \<open>return result, it.Err()\<close>.\<close>

function Collect_loop ::
  "'a::default Iterator \<Rightarrow> 'a list option \<Rightarrow>
     panic + (('a list option \<times> error option) \<times> 'a Iterator)" where
  "Collect_loop it result =
    (case Next it of
      Inl p \<Rightarrow> Inl p
    | Inr (ok, it1) \<Rightarrow>
        if ok then
          (case Iterator_Get it1 of
            Inl p \<Rightarrow> Inl p
          | Inr (r, e) \<Rightarrow>
              if e \<noteq> None then Inr ((None, e), it1)
              else Collect_loop it1 (append_slice result r))
        else (case Err it1 of Inl p \<Rightarrow> Inl p | Inr e \<Rightarrow> Inr ((result, e), it1)))"
  by pat_completeness auto
termination
proof (relation "measure (\<lambda>(it, result). case rows it of None \<Rightarrow> 0 | Some r \<Rightarrow> length (feed r))")
  show "wf (measure (\<lambda>(it, result). case rows it of None \<Rightarrow> 0 | Some r \<Rightarrow> length (feed r)))"
    by simp
next
  fix it :: "'a Iterator" and result x2 ok it1 x2a r e
  assume "Next it = Inr x2" and "(ok, it1) = x2" and "ok"
  then show "((it1, append_slice result r), it, result)
      \<in> measure (\<lambda>(it, result). case rows it of None \<Rightarrow> 0 | Some r \<Rightarrow> length (feed r))"
    by (auto simp: Next_def Rows_Next_def split: if_splits option.splits list.splits)
qed

declare Collect_loop.simps [simp del]

text \<open>
  \<open>Collect\<close> of \<open>sql.go\<close>: \<open>defer it.Close()\<close> runs when the function leaves, whatever the
  path. The loop panics only when \<open>rows\<close> is nil, and then the deferred \<open>Close\<close> panics
  as well: the call panics either way.
\<close>

definition Collect ::
  "'a::default Iterator \<Rightarrow> panic + (('a list option \<times> error option) \<times> 'a Iterator)" where
  "Collect it =
    (case Collect_loop it None of
      Inl p \<Rightarrow> Inl p
    | Inr (res, it1) \<Rightarrow>
        (case Close it1 of Inl p \<Rightarrow> Inl p | Inr (_, it2) \<Rightarrow> Inr (res, it2)))"

text \<open>\<open>Collect\<close> of \<open>pkg/sql.go\<close>: the same loop, and no \<open>Close\<close>.\<close>

definition Collect_pkg ::
  "'a::default Iterator \<Rightarrow> panic + (('a list option \<times> error option) \<times> 'a Iterator)" where
  "Collect_pkg it = Collect_loop it None"

section \<open>Invariants of concurrent calls\<close>

text \<open>
  Which places hold the read lock, which hold the exclusive lock, which lie between
  the return of the factory and \<open>ct.valid = true\<close>, and how far a call has got.
\<close>

fun holdsR :: "'a Get_call \<Rightarrow> bool" where
  "holdsR RLocked = True"
| "holdsR (ReadValid b) = True"
| "holdsR (ReadData b d) = True"
| "holdsR _ = False"

fun holdsW :: "'a Get_call \<Rightarrow> bool" where
  "holdsW Locked = True"
| "holdsW Fill = True"
| "holdsW (Produced x e) = True"
| "holdsW (Store x) = True"
| "holdsW Stored = True"
| "holdsW Validated = True"
| "holdsW _ = False"

fun filling :: "'a Get_call \<Rightarrow> bool" where
  "filling (Produced x e) = True"
| "filling (Store x) = True"
| "filling Stored = True"
| "filling _ = False"

fun returned :: "'a Get_call \<Rightarrow> bool" where
  "returned (Returned d e) = True"
| "returned _ = False"

fun progress_of :: "'a Get_call \<Rightarrow> nat" where
  "progress_of Call = 0"
| "progress_of RLocked = 1"
| "progress_of (ReadValid b) = 2"
| "progress_of (ReadData b d) = 3"
| "progress_of (RUnlocked b d) = 4"
| "progress_of Miss = 5"
| "progress_of Locked = 6"
| "progress_of Fill = 7"
| "progress_of (Produced x e) = 8"
| "progress_of (Store x) = 9"
| "progress_of Stored = 10"
| "progress_of Validated = 11"
| "progress_of (Returned d e) = 12"

text \<open>
  What a call at a place knows, in a run where the first invocation of the factory, in
  world \<open>w0\<close>, succeeds with \<open>v\<close> and leaves world \<open>w1\<close>.
\<close>

fun call_ok :: "'a \<Rightarrow> 'w \<Rightarrow> 'w \<Rightarrow> bool \<Rightarrow> 'a \<Rightarrow> 'w \<Rightarrow> 'a Get_call \<Rightarrow> bool" where
  "call_ok v w0 w1 vld dat w (ReadValid b) = (b \<longrightarrow> vld)"
| "call_ok v w0 w1 vld dat w (ReadData b d) = (b \<longrightarrow> d = v \<and> vld)"
| "call_ok v w0 w1 vld dat w (RUnlocked b d) = (b \<longrightarrow> d = v \<and> vld)"
| "call_ok v w0 w1 vld dat w Fill = (\<not> vld \<and> w = w0)"
| "call_ok v w0 w1 vld dat w (Produced x e) = (x = v \<and> e = None \<and> \<not> vld \<and> w = w1)"
| "call_ok v w0 w1 vld dat w (Store x) = (x = v \<and> \<not> vld \<and> w = w1)"
| "call_ok v w0 w1 vld dat w Stored = (dat = v \<and> \<not> vld \<and> w = w1)"
| "call_ok v w0 w1 vld dat w Validated = vld"
| "call_ok v w0 w1 vld dat w (Returned d e) = (d = v \<and> e = None \<and> vld)"
| "call_ok v w0 w1 vld dat w _ = True"

text \<open>The lock counts its holders.\<close>

definition mutex :: "('a, 'c, 'w) system \<Rightarrow> bool" where
  "mutex s \<longleftrightarrow>
    length (filter holdsW (calls s)) = (if writer (lock (shared s)) then 1 else 0)
    \<and> length (filter holdsR (calls s)) = readers (lock (shared s))"

text \<open>The factory has run at most once, and the cache is valid only with its value.\<close>

definition one_fill :: "'a \<Rightarrow> 'w \<Rightarrow> 'w \<Rightarrow> ('a, 'c, 'w) system \<Rightarrow> bool" where
  "one_fill v w0 w1 s \<longleftrightarrow>
    (valid (shared s) \<longrightarrow> data (shared s) = v \<and> world s = w1)
    \<and> (\<not> valid (shared s) \<longrightarrow>
          world s = w0 \<or> (world s = w1 \<and> (\<exists>i<length (calls s). filling (calls s ! i))))
    \<and> (\<forall>i<length (calls s).
          call_ok v w0 w1 (valid (shared s)) (data (shared s)) (world s) (calls s ! i))"

definition total_progress :: "('a, 'c, 'w) system \<Rightarrow> nat" where
  "total_progress s = sum_list (map progress_of (calls s))"

definition coalescing :: "'c \<Rightarrow> 'a \<Rightarrow> 'w \<Rightarrow> 'w \<Rightarrow> ('a, 'c, 'w) system \<Rightarrow> bool" where
  "coalescing ctx v w0 w1 s \<longleftrightarrow>
    mutex s \<and> one_fill v w0 w1 s \<and> factory (shared s) ctx w0 = ((v, None), w1)"

section \<open>Example values\<close>

text \<open>The \<open>Book\<close> of the tests, with its zero value.\<close>

datatype Book = Book (ID: int) (Title: string) (Author: string) (Year: int)

instantiation Book :: default
begin
definition default_Book :: Book where
  "default_Book = Book 0 [] [] 0"
instance ..
end

definition demo2022 :: Book where
  "demo2022 = Book 1 ''Demo'' ''reddec'' 2022"

definition demo2023 :: Book where
  "demo2023 = Book 1 ''Demo'' ''reddec'' 2023"

text \<open>
  The external source is the stored year of the book; a factory that reads it, and one
  that fails.
\<close>

definition read_demo :: "unit \<Rightarrow> int \<Rightarrow> (Book \<times> error option) \<times> int" where
  "read_demo ctx y = ((Book 1 ''Demo'' ''reddec'' y, None), y)"

definition failing :: "unit \<Rightarrow> int \<Rightarrow> (Book \<times> error option) \<times> int" where
  "failing ctx y = ((default, Some (Error ''no rows'')), y)"

definition filled_demo :: "(Book, unit, nat \<times> int) Cache" where
  "filled_demo = \<lparr>lock = unlocked, data = demo2022, valid = True, factory = counting read_demo\<rparr>"

definition stale_demo :: "(Book, unit, nat \<times> int) Cache" where
  "stale_demo = \<lparr>lock = unlocked, data = demo2022, valid = False, factory = counting failing\<rparr>"

definition filled_failing :: "(Book, unit, nat \<times> int) Cache" where
  "filled_failing = \<lparr>lock = unlocked, data = demo2022, valid = True, factory = counting failing\<rparr>"

definition example1980 :: Book where
  "example1980 = Book 2 ''Example'' ''Rob Pike'' 1980"

definition c1970 :: Book where
  "c1970 = Book 3 ''C'' ''K&R'' 1970"

text \<open>A database with the three books of the tests, and a table that does not exist.\<close>

definition library :: "(Book, unit, string) database" where
  "library ctx q =
    (if q = ''SELECT * FROM book ORDER BY id''
       then Inr ([(demo2022, None), (example1980, None), (c1970, None)], None)
     else if q = ''SELECT * FROM book WHERE year < 0'' then Inr ([], None)
     else Inl (Error ''no such table''))"

text \<open>Four rows, the third of which does not scan.\<close>

definition third_row_fails :: "Book result_set" where
  "third_row_fails =
    ([(demo2022, None), (example1980, None), (default, Some (Error ''scan: year is NULL'')),
      (c1970, None)], None)"

text \<open>
  An iterator whose first row does not scan and whose second row does, and the same
  iterator after its first \<open>Next\<close>.
\<close>

definition first_row_fails :: "Book Iterator" where
  "first_row_fails =
    Rows (Some (open_cursor ([(default, Some (Error ''scan: year is NULL'')), (demo2022, None)], None)))"

definition first_row_fails_1 :: "Book Iterator" where
  "first_row_fails_1 =
    \<lparr>err = None,
     rows = Some \<lparr>feed = [(demo2022, None)], end_err = None,
       current = Some (default, Some (Error ''scan: year is NULL'')),
       lasterr = None, closed = False, closes = 0\<rparr>\<rparr>"

definition first_row_fails_2 :: "Book Iterator" where
  "first_row_fails_2 =
    \<lparr>err = None,
     rows = Some \<lparr>feed = [], end_err = None, current = Some (demo2022, None),
       lasterr = None, closed = False, closes = 0\<rparr>\<rparr>"

text \<open>An iterator with a recorded error and a cursor that has a row and an error of its own.\<close>

definition recorded_and_cursor :: "Book Iterator" where
  "recorded_and_cursor =
    \<lparr>err = Some (Error ''no such table''),
     rows = Some \<lparr>feed = [(demo2022, None)], end_err = None, current = None,
       lasterr = Some (Error ''driver: bad connection''), closed = False, closes = 0\<rparr>\<rparr>"

text \<open>A statement whose named parameter the argument does not have.\<close>

definition no_parameter :: "string \<Rightarrow> error + string" where
  "no_parameter arg = Inl (Error (''could not find name '' @ arg))"

text \<open>Two concurrent calls on a fresh cache: with a factory that succeeds, and one that fails.\<close>

definition two_fillers :: "(Book, unit, nat \<times> int) system" where
  "two_fillers = launch 2 (NewCache (counting read_demo)) (0, 2023)"

definition two_failures :: "(Book, unit, nat \<times> int) system" where
  "two_failures = launch 2 (NewCache (counting failing)) (0, 2023)"

section \<open>The lock is released by every operation\<close>

lemma RUnlock_RLock: "RLock m = Some l \<Longrightarrow> RUnlock l = m"
  by (auto simp: RLock_def RUnlock_def split: if_splits)

lemma Unlock_Lock: "Lock m = Some l \<Longrightarrow> Unlock l = m"
  by (auto simp: Lock_def Unlock_def split: if_splits)

lemma lock_restored:
  "lock ct = unlocked \<Longrightarrow> ct\<lparr>lock := \<lparr>readers = 0, writer = False\<rparr>\<rparr> = ct"
  by (cases ct) (simp add: unlocked_def)

lemmas lock_ops = RLock_def RUnlock_def Lock_def Unlock_def

section \<open>Cache: what one call does\<close>

lemma Cache_Get_filled:
  assumes "lock ct = unlocked" and "valid ct"
  shows "Cache_Get ct ctx w = Some ((data ct, None), ct, w)"
  using assms lock_restored [OF assms(1)]
  by (simp add: Cache_Get_def lock_ops unlocked_def)

lemma Cache_Get_empty:
  assumes "lock ct = unlocked" and "\<not> valid ct" and "factory ct ctx w = ((v, e), w')"
  shows "Cache_Get ct ctx w =
    Some (if e \<noteq> None then ((data ct, e), ct, w')
          else ((v, None), ct\<lparr>data := v, valid := True\<rparr>, w'))"
  using assms lock_restored [OF assms(1)]
  by (simp add: Cache_Get_def lock_ops unlocked_def)

lemma Refresh_unlocked:
  assumes "lock ct = unlocked" and "factory ct ctx w = ((v, e), w')"
  shows "Refresh ct ctx w =
    Some (if e \<noteq> None then (e, ct, w') else (None, ct\<lparr>data := v, valid := True\<rparr>, w'))"
  using assms lock_restored [OF assms(1)]
  by (simp add: Refresh_def lock_ops unlocked_def)

lemma Invalidate_unlocked:
  assumes "lock ct = unlocked"
  shows "Invalidate ct = Some (ct\<lparr>valid := False\<rparr>)"
  using assms lock_restored [OF assms(1)]
  by (simp add: Invalidate_def lock_ops unlocked_def)

lemma Get_after_each_filled:
  assumes "lock ct = unlocked" and "valid ct"
  shows "Get_after_each ct ctx ms w =
    Some (replicate (length ms) (data ct, None), ct, fold (\<lambda>m. m) ms w)"
  using assms by (induction ms arbitrary: w) (simp_all add: Cache_Get_filled)

lemma fold_apsnd: "fold (\<lambda>m. m) (map apsnd ms) (n, w) = (n, fold (\<lambda>m. m) ms w)"
  by (induction ms arbitrary: w) simp_all

section \<open>Cache: the claims\<close>

text \<open>
  C2. A \<open>Get\<close> on a cache whose \<open>valid\<close> is false calls the factory; when the factory
  returns an error, \<open>Get\<close> returns that error, and the cache is left as it was: \<open>valid\<close>
  is still false and the stored value is untouched. The returned pair carries the
  error, so it is not a valid result (its value slot is \<open>ct.data\<close>, as the source
  writes \<open>return ct.data, err\<close>).
\<close>

theorem C2_Get_factory_error:
  assumes "lock ct = unlocked" and "\<not> valid ct"
    and "factory ct ctx w = ((v, Some e), w')"
  shows "\<exists>r ct'. Cache_Get ct ctx w = Some (r, ct', w') \<and> snd r = Some e \<and> fst r = data ct
           \<and> \<not> valid ct' \<and> ct' = ct"
  using Cache_Get_empty [OF assms] assms(2) by simp

theorem C2_witness:
  "lock stale_demo = unlocked \<and> \<not> valid stale_demo
   \<and> factory stale_demo () (0, 2023) = ((default, Some (Error ''no rows'')), (1, 2023))
   \<and> Cache_Get stale_demo () (0, 2023) =
       Some ((demo2022, Some (Error ''no rows'')), stale_demo, (1, 2023))"
  using C2_Get_factory_error [of stale_demo "()" "(0, 2023)" default "Error ''no rows''" "(1, 2023)"]
  by (auto simp: stale_demo_def counting_def failing_def)

text \<open>
  C3. When the factory returns an error to \<open>Refresh\<close>, \<open>Refresh\<close> returns that error and
  the cache is exactly what it was before the call (stored value and \<open>valid\<close> included);
  a cache that was filled still answers a later \<open>Get\<close>, in any later state of the
  external source, with its stored value and no error.
\<close>

theorem C3_Refresh_factory_error:
  assumes "lock ct = unlocked" and "factory ct ctx w = ((v, Some e), w')"
  shows "\<exists>ct'. Refresh ct ctx w = Some (Some e, ct', w')
           \<and> data ct' = data ct \<and> valid ct' = valid ct \<and> ct' = ct
           \<and> (valid ct \<longrightarrow> Cache_Get ct' ctx2 w2 = Some ((data ct, None), ct', w2))"
  using Refresh_unlocked [OF assms] Cache_Get_filled [OF assms(1)] by simp

theorem C3_witness:
  "lock filled_failing = unlocked
   \<and> factory filled_failing () (0, 2023) = ((default, Some (Error ''no rows'')), (1, 2023))
   \<and> Refresh filled_failing () (0, 2023) = Some (Some (Error ''no rows''), filled_failing, (1, 2023))
   \<and> valid filled_failing
   \<and> Cache_Get filled_failing () (1, 2023) = Some ((demo2022, None), filled_failing, (1, 2023))"
  using C3_Refresh_factory_error [of filled_failing "()" "(0, 2023)" default
      "Error ''no rows''" "(1, 2023)" "()" "(1, 2023)"]
  by (auto simp: filled_failing_def counting_def failing_def)

text \<open>
  C4. On a filled cache every \<open>Get\<close> returns the stored value and no error, however many
  calls are made and whatever is done to the external source between them, and the
  instrumented factory's counter does not move. After \<open>Invalidate\<close> the next \<open>Get\<close> calls
  the factory (the counter goes up by one); when the factory succeeds, \<open>Get\<close> returns the
  value just produced and stores it.
\<close>

theorem C4_filled_Get_then_Invalidate:
  assumes "lock ct = unlocked" and "valid ct" and "factory ct = counting f"
    and "f ctx w = ((v, e), w')"
  shows "Get_after_each ct ctx (map apsnd ms) (n, w0) =
           Some (replicate (length ms) (data ct, None), ct, (n, fold (\<lambda>m. m) ms w0))
         \<and> Invalidate ct = Some (ct\<lparr>valid := False\<rparr>)
         \<and> (\<exists>r ct1. Cache_Get (ct\<lparr>valid := False\<rparr>) ctx (n, w) = Some (r, ct1, (Suc n, w'))
              \<and> (e = None \<longrightarrow> r = (v, None) \<and> ct1 = ct\<lparr>data := v\<rparr>))"
proof -
  have a: "Get_after_each ct ctx (map apsnd ms) (n, w0) =
      Some (replicate (length ms) (data ct, None), ct, (n, fold (\<lambda>m. m) ms w0))"
    using Get_after_each_filled [OF assms(1,2)] by (simp add: fold_apsnd)
  have i: "Invalidate ct = Some (ct\<lparr>valid := False\<rparr>)"
    using assms(1) by (rule Invalidate_unlocked)
  have g: "factory (ct\<lparr>valid := False\<rparr>) ctx (n, w) = ((v, e), (Suc n, w'))"
    using assms(3,4) by (simp add: counting_def)
  have l: "lock (ct\<lparr>valid := False\<rparr>) = unlocked" and n: "\<not> valid (ct\<lparr>valid := False\<rparr>)"
    using assms(1) by simp_all
  have "ct\<lparr>data := v, valid := True\<rparr> = ct\<lparr>data := v\<rparr>"
    using assms(2) by (cases ct) simp
  with Cache_Get_empty [OF l n g] i a show ?thesis
    by auto
qed

theorem C4_witness:
  "lock filled_demo = unlocked \<and> valid filled_demo \<and> factory filled_demo = counting read_demo
   \<and> read_demo () 2023 = ((demo2023, None), 2023)
   \<and> Get_after_each filled_demo () (map apsnd [\<lambda>y. y, \<lambda>y. 2023]) (1, 2022) =
       Some ([(demo2022, None), (demo2022, None)], filled_demo, (1, 2023))
   \<and> Invalidate filled_demo = Some (filled_demo\<lparr>valid := False\<rparr>)
   \<and> Cache_Get (filled_demo\<lparr>valid := False\<rparr>) () (1, 2023) =
       Some ((demo2023, None), filled_demo\<lparr>data := demo2023\<rparr>, (2, 2023))"
proof -
  have h: "lock filled_demo = unlocked" "valid filled_demo"
      "factory filled_demo = counting read_demo"
      "read_demo () 2023 = ((demo2023, None), 2023)"
    by (simp_all add: filled_demo_def read_demo_def demo2023_def)
  note t = C4_filled_Get_then_Invalidate [OF h, of "[\<lambda>y. y, \<lambda>y. 2023]" 1 2022]
  have d: "data filled_demo = demo2022"
    by (simp add: filled_demo_def)
  have a: "Get_after_each filled_demo () (map apsnd [\<lambda>y. y, \<lambda>y. 2023]) (1, 2022) =
      Some ([(demo2022, None), (demo2022, None)], filled_demo, (1, 2023))"
    using t [THEN conjunct1] d by (simp del: Get_after_each.simps add: numeral_2_eq_2)
  have b: "Cache_Get (filled_demo\<lparr>valid := False\<rparr>) () (1, 2023) =
      Some ((demo2023, None), filled_demo\<lparr>data := demo2023\<rparr>, (2, 2023))"
    using t [THEN conjunct2, THEN conjunct2] by (auto simp: numeral_2_eq_2)
  from h a b t [THEN conjunct2, THEN conjunct1] show ?thesis
    by (simp del: Get_after_each.simps)
qed

text \<open>
  C5. \<open>Refresh\<close> calls the factory whatever the state of the cache is (the instrumented
  factory's counter goes up by one, filled or not); when the factory succeeds the
  produced value replaces the stored one and \<open>valid\<close> becomes true.
\<close>

theorem C5_Refresh_always_invokes:
  assumes "lock ct = unlocked" and "factory ct = counting f" and "f ctx w = ((v, e), w')"
  shows "\<exists>ct'. Refresh ct ctx (n, w) = Some (e, ct', (Suc n, w'))
           \<and> (e = None \<longrightarrow> ct' = ct\<lparr>data := v, valid := True\<rparr> \<and> data ct' = v \<and> valid ct')"
proof -
  have "factory ct ctx (n, w) = ((v, e), (Suc n, w'))"
    using assms(2,3) by (simp add: counting_def)
  from Refresh_unlocked [OF assms(1) this] show ?thesis
    by auto
qed

theorem C5_witness:
  "lock filled_demo = unlocked \<and> factory filled_demo = counting read_demo
   \<and> read_demo () 2023 = ((demo2023, None), 2023)
   \<and> valid filled_demo \<and> data filled_demo = demo2022
   \<and> Refresh filled_demo () (1, 2023) = Some (None, filled_demo\<lparr>data := demo2023\<rparr>, (2, 2023))"
proof -
  have h: "lock filled_demo = unlocked" "factory filled_demo = counting read_demo"
      "read_demo () 2023 = ((demo2023, None), 2023)"
    by (simp_all add: filled_demo_def read_demo_def demo2023_def)
  have "filled_demo\<lparr>data := demo2023, valid := True\<rparr> = filled_demo\<lparr>data := demo2023\<rparr>"
    by (simp add: filled_demo_def)
  with C5_Refresh_always_invokes [OF h, of 1] h show ?thesis
    by (auto simp: numeral_2_eq_2 filled_demo_def)
qed

text \<open>
  C6. \<open>Invalidate\<close> returns, and the cache it leaves differs from the one it found in the
  \<open>valid\<close> flag only, which is false: the stored value, the factory and the (released)
  lock are the same.
\<close>

theorem C6_Invalidate_frame:
  assumes "lock ct = unlocked"
  shows "\<exists>ct'. Invalidate ct = Some ct' \<and> ct' = ct\<lparr>valid := False\<rparr> \<and> \<not> valid ct'
           \<and> data ct' = data ct \<and> factory ct' = factory ct \<and> lock ct' = lock ct"
  using Invalidate_unlocked [OF assms] by simp

theorem C6_witness:
  "lock filled_demo = unlocked
   \<and> Invalidate filled_demo =
       Some \<lparr>lock = unlocked, data = demo2022, valid = False, factory = counting read_demo\<rparr>"
  using C6_Invalidate_frame [of filled_demo] by (auto simp: filled_demo_def)

section \<open>Concurrent calls: invariants\<close>

lemma count_update:
  "i < length ts \<Longrightarrow>
     length (filter P (ts[i := t])) + (if P (ts ! i) then 1 else 0) =
     length (filter P ts) + (if P t then 1 else 0)"
proof (induction ts arbitrary: i)
  case Nil
  then show ?case by simp
next
  case (Cons x ts)
  then show ?case
    by (cases i) auto
qed

lemma count_pos: "i < length ts \<Longrightarrow> P (ts ! i) \<Longrightarrow> 0 < length (filter P ts)"
  by (metis filter_empty_conv length_greater_0_conv nth_mem)


lemma step_SomeE:
  assumes "step ctx i s = Some s'"
  obtains pc ct w where "i < length (calls s)"
    and "Get_step ctx (shared s) (world s) (calls s ! i) = Some (pc, ct, w)"
    and "s' = \<lparr>shared = ct, world = w, calls = (calls s)[i := pc]\<rparr>"
  using assms by (auto simp: step_def split: if_splits option.splits)

lemma Get_step_writer:
  assumes "Get_step ctx ct w pc = Some (pc', ct', w')"
  shows "writer (lock ct') =
    (if holdsW pc' \<and> \<not> holdsW pc then True
     else if holdsW pc \<and> \<not> holdsW pc' then False
     else writer (lock ct))"
  using assms
  by (cases pc) (auto simp: Get_step_def lock_ops split: if_splits prod.splits)

lemma Get_step_acquire:
  assumes "Get_step ctx ct w pc = Some (pc', ct', w')" and "\<not> holdsW pc" and "holdsW pc'"
  shows "\<not> writer (lock ct)"
  using assms
  by (cases pc) (auto simp: Get_step_def lock_ops split: if_splits prod.splits)

lemma Get_step_readers:
  assumes "Get_step ctx ct w pc = Some (pc', ct', w')" and "holdsR pc \<longrightarrow> 0 < readers (lock ct)"
  shows "readers (lock ct') + (if holdsR pc then 1 else 0) =
    readers (lock ct) + (if holdsR pc' then 1 else 0)"
  using assms
  by (cases pc; auto simp: Get_step_def lock_ops split: if_splits option.splits prod.splits)

lemma count_ex: "0 < length (filter P ts) \<Longrightarrow> \<exists>i<length ts. P (ts ! i)"
  by (metis filter_empty_conv in_set_conv_nth length_greater_0_conv)

lemma count_unique:
  "length (filter P ts) \<le> 1 \<Longrightarrow> i < length ts \<Longrightarrow> j < length ts \<Longrightarrow>
     P (ts ! i) \<Longrightarrow> P (ts ! j) \<Longrightarrow> i = j"
proof (induction ts arbitrary: i j)
  case Nil
  then show ?case by simp
next
  case (Cons x ts)
  show ?case
  proof (cases "P x")
    case True
    then have z: "length (filter P ts) = 0"
      using Cons.prems(1) by simp
    have "i = 0"
    proof (cases i)
      case (Suc i')
      then have "0 < length (filter P ts)"
        using Cons.prems(2,4) by (intro count_pos [of i']) simp_all
      then show ?thesis using z by simp
    qed simp
    moreover have "j = 0"
    proof (cases j)
      case (Suc j')
      then have "0 < length (filter P ts)"
        using Cons.prems(3,5) by (intro count_pos [of j']) simp_all
      then show ?thesis using z by simp
    qed simp
    ultimately show ?thesis by simp
  next
    case False
    then obtain i' j' where "i = Suc i'" and "j = Suc j'"
      using Cons.prems(4,5) by (cases i; cases j) auto
    then show ?thesis
      using Cons.IH [of i' j'] Cons.prems False by simp
  qed
qed

lemma step_mutex:
  assumes "mutex s" and "step ctx i s = Some s'"
  shows "mutex s'"
proof -
  from assms(2) obtain pc ct w where i: "i < length (calls s)"
    and g: "Get_step ctx (shared s) (world s) (calls s ! i) = Some (pc, ct, w)"
    and s': "s' = \<lparr>shared = ct, world = w, calls = (calls s)[i := pc]\<rparr>"
    by (rule step_SomeE)
  let ?ts = "calls s"
  have w: "length (filter holdsW ?ts) = (if writer (lock (shared s)) then 1 else 0)"
    and r: "length (filter holdsR ?ts) = readers (lock (shared s))"
    using assms(1) by (simp_all add: mutex_def)
  have "holdsR (?ts ! i) \<longrightarrow> 0 < readers (lock (shared s))"
    using count_pos [OF i, of holdsR] r by simp
  from Get_step_readers [OF g this] count_update [OF i, of holdsR pc] r
  have r': "length (filter holdsR (?ts[i := pc])) = readers (lock ct)"
    by (simp split: if_splits)
  have p: "holdsW (?ts ! i) \<longrightarrow> 0 < length (filter holdsW ?ts)"
    using count_pos [OF i, of holdsW] by simp
  have a: "\<not> holdsW (?ts ! i) \<and> holdsW pc \<longrightarrow> \<not> writer (lock (shared s))"
    using Get_step_acquire [OF g] by blast
  from Get_step_writer [OF g] count_update [OF i, of holdsW pc] w p a
  have w': "length (filter holdsW (?ts[i := pc])) = (if writer (lock ct) then 1 else 0)"
    by (simp split: if_splits)
  show ?thesis
    unfolding mutex_def s' using r' w' by simp
qed

lemma filling_holdsW: "filling pc \<Longrightarrow> holdsW pc"
  by (cases pc) simp_all

lemma call_ok_mono:
  "\<not> holdsW q \<Longrightarrow> (vld \<longrightarrow> vld') \<Longrightarrow> call_ok v w0 w1 vld dat w q \<Longrightarrow>
     call_ok v w0 w1 vld' dat' w' q"
  by (cases q) auto

lemma Get_step_own:
  assumes "Get_step ctx ct w pc = Some (pc', ct', w')"
    and "factory ct ctx w0 = ((v, None), w1)"
    and "call_ok v w0 w1 (valid ct) (data ct) w pc"
    and "valid ct \<longrightarrow> data ct = v \<and> w = w1"
    and "\<not> valid ct \<and> holdsW pc \<and> \<not> filling pc \<longrightarrow> w = w0"
  shows "call_ok v w0 w1 (valid ct') (data ct') w' pc'
    \<and> (valid ct' \<longrightarrow> data ct' = v \<and> w' = w1)
    \<and> (holdsW pc \<longrightarrow> \<not> valid ct' \<longrightarrow> w' = w0 \<or> (w' = w1 \<and> filling pc'))
    \<and> (\<not> holdsW pc \<longrightarrow> valid ct' = valid ct \<and> data ct' = data ct \<and> w' = w)
    \<and> factory ct' = factory ct
    \<and> (valid ct \<longrightarrow> valid ct')"
  using assms
  by (cases pc) (auto simp: Get_step_def lock_ops split: if_splits prod.splits)

lemma step_one_fill:
  assumes "mutex s" and "one_fill v w0 w1 s" and "factory (shared s) ctx w0 = ((v, None), w1)"
    and "step ctx i s = Some s'"
  shows "one_fill v w0 w1 s' \<and> factory (shared s') = factory (shared s)"
proof -
  from assms(4) obtain pc ct w where i: "i < length (calls s)"
    and g: "Get_step ctx (shared s) (world s) (calls s ! i) = Some (pc, ct, w)"
    and s': "s' = \<lparr>shared = ct, world = w, calls = (calls s)[i := pc]\<rparr>"
    by (rule step_SomeE)
  let ?ts = "calls s"
  let ?ok = "call_ok v w0 w1 (valid (shared s)) (data (shared s)) (world s)"
  have one: "length (filter holdsW ?ts) \<le> 1"
    using assms(1) by (simp add: mutex_def)
  have v: "valid (shared s) \<longrightarrow> data (shared s) = v \<and> world s = w1"
    and n: "\<not> valid (shared s) \<longrightarrow>
        world s = w0 \<or> (world s = w1 \<and> (\<exists>j<length ?ts. filling (?ts ! j)))"
    and ok: "\<And>j. j < length ?ts \<Longrightarrow> ?ok (?ts ! j)"
    using assms(2) by (simp_all add: one_fill_def)
  have alone: "j = i" if "holdsW (?ts ! i)" "j < length ?ts" "holdsW (?ts ! j)" for j
    using count_unique [OF one that(2) i that(3,1)] .
  have h: "\<not> valid (shared s) \<and> holdsW (?ts ! i) \<and> \<not> filling (?ts ! i) \<longrightarrow> world s = w0"
    using n alone filling_holdsW by blast
  note own = Get_step_own [OF g assms(3) ok [OF i] v h]
  have ok': "call_ok v w0 w1 (valid ct) (data ct) w (?ts[i := pc] ! j)" if j: "j < length ?ts" for j
  proof (cases "j = i")
    case True
    then show ?thesis
      using own i by simp
  next
    case False
    show ?thesis
    proof (cases "holdsW (?ts ! i)")
      case True
      then have "\<not> holdsW (?ts ! j)"
        using alone [OF _ j] False by blast
      from call_ok_mono [OF this _ ok [OF j]] own False show ?thesis
        by simp
    next
      case f: False
      then show ?thesis
        using own ok [OF j] False by simp
    qed
  qed
  have n': "\<not> valid ct \<longrightarrow>
      w = w0 \<or> (w = w1 \<and> (\<exists>j<length ?ts. filling (?ts[i := pc] ! j)))"
  proof (cases "holdsW (?ts ! i)")
    case True
    then have "\<not> valid ct \<longrightarrow> w = w0 \<or> (w = w1 \<and> filling pc)"
      using own by blast
    then show ?thesis
      using i by (metis nth_list_update_eq)
  next
    case False
    have "\<exists>j<length ?ts. filling (?ts[i := pc] ! j)" if "j < length ?ts" "filling (?ts ! j)" for j
    proof -
      have "j \<noteq> i"
        using that(2) False filling_holdsW by blast
      then show ?thesis
        using that by (metis nth_list_update_neq)
    qed
    then show ?thesis
      using own n False by auto
  qed
  show ?thesis
    unfolding one_fill_def s' using own ok' n' by simp
qed

lemma step_coalescing:
  assumes "coalescing ctx v w0 w1 s" and "step ctx i s = Some s'"
  shows "coalescing ctx v w0 w1 s'"
  using assms step_mutex [of s ctx i s'] step_one_fill [of s v w0 w1 ctx i s']
  by (simp add: coalescing_def)

lemma exec_coalescing:
  "coalescing ctx v w0 w1 s \<Longrightarrow> exec ctx sched s = Some s' \<Longrightarrow> coalescing ctx v w0 w1 s'"
proof (induction sched arbitrary: s)
  case Nil
  then show ?case by simp
next
  case (Cons i sched)
  then obtain s1 where s1: "step ctx i s = Some s1" and e: "exec ctx sched s1 = Some s'"
    by (auto split: option.splits)
  from Cons.IH [OF step_coalescing [OF Cons.prems(1) s1] e] show ?case .
qed

lemma launch_coalescing:
  assumes "g ctx w0 = ((v, None), w1)"
  shows "coalescing ctx v w0 w1 (launch n (NewCache g) w0)"
  using assms
  by (simp add: coalescing_def mutex_def one_fill_def launch_def NewCache_def unlocked_def)

lemma Get_step_blocked:
  "Get_step ctx ct w pc = None \<longleftrightarrow>
     pc = Call \<and> writer (lock ct)
     \<or> pc = Miss \<and> (writer (lock ct) \<or> readers (lock ct) \<noteq> 0)
     \<or> returned pc"
  by (cases pc) (simp_all add: Get_step_def lock_ops split: prod.splits)

lemma Get_step_holder:
  "holdsW pc \<or> holdsR pc \<Longrightarrow> Get_step ctx ct w pc \<noteq> None"
  by (cases pc) (simp_all add: Get_step_def lock_ops split: prod.splits)

lemma step_enabled:
  "i < length (calls s) \<Longrightarrow> Get_step ctx (shared s) (world s) (calls s ! i) \<noteq> None \<Longrightarrow>
     step ctx i s \<noteq> None"
  by (auto simp: step_def)

lemma no_deadlock:
  assumes "mutex s" and "\<not> list_all returned (calls s)"
  shows "\<exists>i<length (calls s). step ctx i s \<noteq> None"
proof -
  let ?ts = "calls s"
  from assms(2) obtain j where j: "j < length ?ts" and nr: "\<not> returned (?ts ! j)"
    by (auto simp: list_all_length)
  have w: "length (filter holdsW ?ts) = (if writer (lock (shared s)) then 1 else 0)"
    and r: "length (filter holdsR ?ts) = readers (lock (shared s))"
    using assms(1) by (simp_all add: mutex_def)
  show ?thesis
  proof (cases "writer (lock (shared s))")
    case True
    then have "0 < length (filter holdsW ?ts)"
      using w by simp
    then obtain k where k: "k < length ?ts" and "holdsW (?ts ! k)"
      using count_ex [of holdsW ?ts] by blast
    then have "Get_step ctx (shared s) (world s) (?ts ! k) \<noteq> None"
      by (simp add: Get_step_holder)
    from step_enabled [OF k this] k show ?thesis
      by blast
  next
    case False
    show ?thesis
    proof (cases "readers (lock (shared s)) = 0")
      case True
      then have "Get_step ctx (shared s) (world s) (?ts ! j) \<noteq> None"
        using False nr by (simp add: Get_step_blocked)
      from step_enabled [OF j this] j show ?thesis
        by blast
    next
      case f: False
      then have "0 < length (filter holdsR ?ts)"
        using r by simp
      then obtain k where k: "k < length ?ts" and "holdsR (?ts ! k)"
        using count_ex [of holdsR ?ts] by blast
      then have "Get_step ctx (shared s) (world s) (?ts ! k) \<noteq> None"
        by (simp add: Get_step_holder)
      from step_enabled [OF k this] k show ?thesis
        by blast
    qed
  qed
qed

lemma Get_step_progress:
  "Get_step ctx ct w pc = Some (pc', ct', w') \<Longrightarrow> progress_of pc < progress_of pc'"
  by (cases pc) (auto simp: Get_step_def lock_ops split: if_splits prod.splits)

lemma progress_of_le: "progress_of pc \<le> 12"
  by (cases pc) simp_all

lemma sum_progress_le: "sum_list (map progress_of ts) \<le> 12 * length ts"
proof (induction ts)
  case Nil
  then show ?case by simp
next
  case (Cons pc ts)
  then show ?case
    using progress_of_le [of pc] by simp
qed

lemma sum_progress_update:
  "i < length ts \<Longrightarrow> progress_of (ts ! i) < progress_of pc \<Longrightarrow>
     sum_list (map progress_of ts) < sum_list (map progress_of (ts[i := pc]))"
proof (induction ts arbitrary: i)
  case Nil
  then show ?case by simp
next
  case (Cons x ts)
  then show ?case
    by (cases i) auto
qed

lemma step_progress:
  assumes "step ctx i s = Some s'"
  shows "total_progress s < total_progress s' \<and> length (calls s') = length (calls s)"
proof -
  from assms obtain pc ct w where i: "i < length (calls s)"
    and g: "Get_step ctx (shared s) (world s) (calls s ! i) = Some (pc, ct, w)"
    and s': "s' = \<lparr>shared = ct, world = w, calls = (calls s)[i := pc]\<rparr>"
    by (rule step_SomeE)
  show ?thesis
    using sum_progress_update [OF i Get_step_progress [OF g]]
    by (simp add: total_progress_def s')
qed

lemma exec_progress:
  "exec ctx sched s = Some s' \<Longrightarrow>
     total_progress s + length sched \<le> total_progress s' \<and> length (calls s') = length (calls s)"
proof (induction sched arbitrary: s)
  case Nil
  then show ?case by simp
next
  case (Cons i sched)
  then obtain s1 where s1: "step ctx i s = Some s1" and e: "exec ctx sched s1 = Some s'"
    by (auto split: option.splits)
  from Cons.IH [OF e] step_progress [OF s1] show ?case
    by simp
qed

lemma can_finish:
  assumes "mutex s"
  shows "\<exists>sched s'. exec ctx sched s = Some s' \<and> list_all returned (calls s')"
  using assms
proof (induction "12 * length (calls s) - total_progress s" arbitrary: s rule: less_induct)
  case less
  show ?case
  proof (cases "list_all returned (calls s)")
    case True
    then have "exec ctx [] s = Some s \<and> list_all returned (calls s)"
      by simp
    then show ?thesis
      by blast
  next
    case False
    from no_deadlock [OF less.prems False, of ctx] obtain i s1 where s1: "step ctx i s = Some s1"
      by auto
    have "total_progress s1 \<le> 12 * length (calls s1)"
      by (simp add: total_progress_def sum_progress_le)
    then have "12 * length (calls s1) - total_progress s1 < 12 * length (calls s) - total_progress s"
      using step_progress [OF s1] by arith
    from less.hyps [OF this step_mutex [OF less.prems s1]]
    obtain sched s' where "exec ctx sched s1 = Some s'" and r: "list_all returned (calls s')"
      by blast
    then have "exec ctx (i # sched) s = Some s'"
      using s1 by simp
    then show ?thesis
      using r by blast
  qed
qed

text \<open>
  One call alone in the interleaving model does what \<open>Cache_Get\<close> says.
\<close>

lemma Cache_Get_solo_run:
  assumes "lock ct = unlocked"
  shows "\<exists>k s d e. exec ctx (replicate k 0) (launch 1 ct w) = Some s
    \<and> calls s = [Returned d e] \<and> Cache_Get ct ctx w = Some ((d, e), shared s, world s)"
proof (cases "valid ct")
  case True
  have "exec ctx (replicate 5 0) (launch 1 ct w) =
      Some \<lparr>shared = ct, world = w, calls = [Returned (data ct) None]\<rparr>"
    using True assms lock_restored [OF assms]
    by (simp add: eval_nat_numeral step_def Get_step_def launch_def lock_ops unlocked_def)
  then show ?thesis
    using Cache_Get_filled [OF assms True] by fastforce
next
  case False
  obtain v e w' where f: "factory ct ctx w = ((v, e), w')"
    by (metis surj_pair)
  show ?thesis
  proof (cases e)
    case None
    have "exec ctx (replicate 12 0) (launch 1 ct w) =
        Some \<lparr>shared = ct\<lparr>data := v, valid := True\<rparr>, world = w', calls = [Returned v None]\<rparr>"
      using False f None assms lock_restored [OF assms]
      by (simp add: eval_nat_numeral step_def Get_step_def launch_def lock_ops unlocked_def)
    then show ?thesis
      using Cache_Get_empty [OF assms False f] None by fastforce
  next
    case (Some x)
    have "exec ctx (replicate 9 0) (launch 1 ct w) =
        Some \<lparr>shared = ct, world = w', calls = [Returned (data ct) e]\<rparr>"
      using False f Some assms lock_restored [OF assms]
      by (simp add: eval_nat_numeral step_def Get_step_def launch_def lock_ops unlocked_def)
    then show ?thesis
      using Cache_Get_empty [OF assms False f] Some by fastforce
  qed
qed


section \<open>Concurrent calls: the claim\<close>

lemmas run_defs = step_def Get_step_def launch_def NewCache_def counting_def lock_ops unlocked_def

text \<open>
  C1 (as stated). Two concurrent calls of \<open>Get\<close> on a fresh cache would invoke the
  factory once. With a factory that fails they invoke it twice: both calls miss, the
  first takes the exclusive lock, calls the factory and returns its error with \<open>valid\<close>
  still false; the second takes the lock, finds \<open>valid\<close> false and calls the factory
  again. The counter of the instrumented factory ends at 2.
\<close>

theorem C1_counterexample:
  "map_option world (exec () [0, 1, 0, 1, 0, 1, 0, 1, 0, 1, 0, 0, 0, 0, 1, 1, 1, 1] two_failures)
     = Some (2, 2023)
   \<and> map_option calls (exec () [0, 1, 0, 1, 0, 1, 0, 1, 0, 1, 0, 0, 0, 0, 1, 1, 1, 1] two_failures)
     = Some [Returned default (Some (Error ''no rows'')), Returned default (Some (Error ''no rows''))]"
  by (simp add: two_failures_def run_defs failing_def numeral_2_eq_2)

text \<open>
  C1 (as amended). \<open>n > 0\<close> calls of \<open>Get\<close> run concurrently on a fresh cache whose
  factory succeeds at its first invocation with \<open>v\<close>. Whatever the schedule, and at
  every moment of it: the factory has been invoked at most once; every call that has
  returned has returned \<open>v\<close> and no error; once all calls have returned the factory has
  been invoked exactly once; while some call has not returned some call can move, and
  the run can be continued until all calls have returned; no schedule has more than
  \<open>12 * n\<close> steps.
\<close>

theorem C1_one_fill_when_factory_succeeds:
  assumes "f ctx w0 = ((v, None), w1)" and "0 < n"
    and "exec ctx sched (launch n (NewCache (counting f)) (0, w0)) = Some s"
  shows "length (calls s) = n
    \<and> fst (world s) \<le> 1
    \<and> (\<forall>i<n. \<forall>d e. calls s ! i = Returned d e \<longrightarrow> d = v \<and> e = None)
    \<and> (list_all returned (calls s) \<longrightarrow> world s = (1, w1))
    \<and> (\<not> list_all returned (calls s) \<longrightarrow> (\<exists>i<n. step ctx i s \<noteq> None))
    \<and> (\<exists>rest s'. exec ctx rest s = Some s' \<and> list_all returned (calls s'))
    \<and> length sched \<le> 12 * n"
proof -
  let ?s0 = "launch n (NewCache (counting f)) (0, w0)"
  have "counting f ctx (0, w0) = ((v, None), (Suc 0, w1))"
    using assms(1) by (simp add: counting_def)
  then have "coalescing ctx v (0, w0) (Suc 0, w1) ?s0"
    by (rule launch_coalescing)
  from exec_coalescing [OF this assms(3)]
  have m: "mutex s" and o: "one_fill v (0, w0) (Suc 0, w1) s"
    by (simp_all add: coalescing_def)
  have len: "length (calls s) = n" and p: "total_progress ?s0 + length sched \<le> total_progress s"
    using exec_progress [OF assms(3)] by (simp_all add: launch_def)
  have ok: "call_ok v (0, w0) (Suc 0, w1) (valid (shared s)) (data (shared s)) (world s) (calls s ! i)"
    if "i < n" for i
    using o that len by (simp add: one_fill_def)
  have c: "fst (world s) \<le> 1"
    using o by (cases "valid (shared s)") (auto simp: one_fill_def)
  have r: "d = v \<and> e = None \<and> valid (shared s)" if "i < n" "calls s ! i = Returned d e" for i d e
    using ok [OF that(1)] that(2) by simp
  have a: "world s = (1, w1)" if "list_all returned (calls s)"
  proof -
    from that assms(2) len obtain d e where "calls s ! 0 = Returned d e"
      by (cases "calls s ! 0") (auto simp: list_all_length)
    from r [OF assms(2) this] o show ?thesis
      by (simp add: one_fill_def)
  qed
  have b: "length sched \<le> 12 * n"
    using p sum_progress_le [of "calls s"] len by (simp add: total_progress_def)
  from len c r a b no_deadlock [OF m, of ctx] can_finish [OF m, of ctx] show ?thesis
    by blast
qed

theorem C1_witness:
  "read_demo () 2023 = ((demo2023, None), 2023) \<and> (0 :: nat) < 2
   \<and> exec () [0, 1, 0, 1, 0, 1, 0, 1, 0, 1, 0, 0, 0, 0, 0, 0, 0, 1, 1] two_fillers =
       Some \<lparr>shared = \<lparr>lock = unlocked, data = demo2023, valid = True,
                factory = counting read_demo\<rparr>,
             world = (1, 2023),
             calls = [Returned demo2023 None, Returned demo2023 None]\<rparr>
   \<and> length [0 :: nat, 1, 0, 1, 0, 1, 0, 1, 0, 1, 0, 0, 0, 0, 0, 0, 0, 1, 1] \<le> 12 * 2"
proof -
  have h: "read_demo () 2023 = ((demo2023, None), 2023)" "(0 :: nat) < 2"
    by (simp_all add: read_demo_def demo2023_def)
  have e: "exec () [0, 1, 0, 1, 0, 1, 0, 1, 0, 1, 0, 0, 0, 0, 0, 0, 0, 1, 1]
      (launch 2 (NewCache (counting read_demo)) (0, 2023)) =
      Some \<lparr>shared = \<lparr>lock = unlocked, data = demo2023, valid = True,
               factory = counting read_demo\<rparr>,
            world = (1, 2023),
            calls = [Returned demo2023 None, Returned demo2023 None]\<rparr>"
    by (simp add: run_defs read_demo_def demo2023_def numeral_2_eq_2)
  from C1_one_fill_when_factory_succeeds [OF h e] h e show ?thesis
    by (simp add: two_fillers_def)
qed


section \<open>Iterator: what the loop of Collect does\<close>

lemmas it_ops = Next_def Err_def Close_def Iterator_Get_def Rows_Next_def Rows_Err_def
  Rows_Close_def StructScan_def

lemma Collect_loop_recorded:
  "err it = Some e \<Longrightarrow> Collect_loop it acc = Inr ((acc, Some e), it)"
  by (subst Collect_loop.simps) (simp add: Next_def Err_def)

lemma Collect_loop_nil:
  "err it = None \<Longrightarrow> rows it = None \<Longrightarrow> Collect_loop it acc = Inl NilPointerDereference"
  by (subst Collect_loop.simps) (simp add: Next_def)

lemma Next_rows:
  "err it = None \<Longrightarrow> rows it = Some c \<Longrightarrow>
     Next it = Inr (fst (Rows_Next c), it\<lparr>rows := Some (snd (Rows_Next c))\<rparr>)"
  by (simp add: Next_def split: prod.splits)

lemma Iterator_Get_rows:
  "rows it = Some c \<Longrightarrow>
     Iterator_Get it =
       Inr (if Rows_Err c \<noteq> None then (default, Rows_Err c) else StructScan c default)"
  by (simp add: Iterator_Get_def)

lemma closes_Rows_Next: "closes (snd (Rows_Next c)) = closes c"
  by (simp add: Rows_Next_def split: list.splits)

text \<open>With a cursor the loop never panics, and it never closes the cursor itself.\<close>

lemma Collect_loop_rows:
  "rows it = Some c \<Longrightarrow>
     \<exists>res it' c'. Collect_loop it acc = Inr (res, it') \<and> rows it' = Some c'
       \<and> closes c' = closes c \<and> err it' = err it"
proof (induction it acc arbitrary: c rule: Collect_loop.induct)
  case (1 it result)
  note c = "1.prems"
  show ?case
  proof (cases "err it")
    case (Some e)
    then show ?thesis
      using c by (simp add: Collect_loop_recorded)
  next
    case None
    define ok where "ok = fst (Rows_Next c)"
    define it1 where "it1 = it\<lparr>rows := Some (snd (Rows_Next c))\<rparr>"
    have n: "Next it = Inr (ok, it1)"
      using Next_rows [OF None c] by (simp add: ok_def it1_def)
    have r1: "rows it1 = Some (snd (Rows_Next c))" and e1: "err it1 = err it"
      by (simp_all add: it1_def)
    show ?thesis
    proof (cases ok)
      case False
      then show ?thesis
        using n r1 e1 None
        by (subst Collect_loop.simps) (simp add: Err_def closes_Rows_Next)
    next
      case True
      obtain r e where g: "Iterator_Get it1 = Inr (r, e)"
        using Iterator_Get_rows [OF r1] by (metis surj_pair)
      show ?thesis
      proof (cases e)
        case (Some x)
        then show ?thesis
          using n True g r1 e1
          by (subst Collect_loop.simps) (simp add: closes_Rows_Next)
      next
        case None
        have "\<exists>res it' c'. Collect_loop it1 (append_slice result r) = Inr (res, it')
            \<and> rows it' = Some c' \<and> closes c' = closes (snd (Rows_Next c)) \<and> err it' = err it1"
          using "1.IH" [OF n refl True g refl _ r1] None by simp
        then show ?thesis
          using n True g None e1
          by (subst Collect_loop.simps) (simp add: closes_Rows_Next)
      qed
    qed
  qed
qed

text \<open>The loop leaves at the first row that does not scan, with a nil slice and the error.\<close>

lemma Collect_loop_scan_error:
  assumes "err it = None" and "rows it = Some c" and "\<not> closed c" and "lasterr c = None"
    and "feed c = good @ (v, Some e) # rest" and "\<forall>x\<in>set good. snd x = None"
  shows "Collect_loop it acc =
    Inr ((None, Some e), it\<lparr>rows := Some (c\<lparr>feed := rest, current := Some (v, Some e)\<rparr>)\<rparr>)"
  using assms
proof (induction good arbitrary: it c acc)
  case Nil
  then show ?case
    by (subst Collect_loop.simps) (simp add: it_ops)
next
  case (Cons x good)
  obtain y where x: "x = (y, None)"
    using Cons.prems(6) by (cases x) simp
  define c1 where "c1 = c\<lparr>feed := good @ (v, Some e) # rest, current := Some x\<rparr>"
  define it1 where "it1 = it\<lparr>rows := Some c1\<rparr>"
  have n: "Next it = Inr (True, it1)"
    using Cons.prems(1-5) by (simp add: Next_def Rows_Next_def it1_def c1_def)
  have g: "Iterator_Get it1 = Inr (y, None)"
    using Cons.prems(3,4) by (simp add: Iterator_Get_def Rows_Err_def StructScan_def it1_def c1_def x)
  have "Collect_loop it1 (append_slice acc y) =
      Inr ((None, Some e), it1\<lparr>rows := Some (c1\<lparr>feed := rest, current := Some (v, Some e)\<rparr>)\<rparr>)"
    using Cons.prems by (intro Cons.IH) (simp_all add: it1_def c1_def)
  then show ?case
    using n g by (subst Collect_loop.simps) (simp add: it1_def c1_def)
qed

text \<open>
  \<open>Collect\<close> of \<open>sql.go\<close> on an iterator whose cursor has a row that does not scan: a nil
  slice and the error of the first such row, and the cursor closed by one more \<open>Close\<close>.
\<close>

lemma Collect_scan_error:
  assumes "err it = None" and "rows it = Some c" and "\<not> closed c" and "lasterr c = None"
    and "feed c = good @ (v, Some e) # rest" and "\<forall>x\<in>set good. snd x = None"
  shows "Collect it =
    Inr ((None, Some e),
      it\<lparr>rows := Some (c\<lparr>feed := rest, current := None, closed := True, closes := closes c + 1\<rparr>)\<rparr>)"
  using Collect_loop_scan_error [OF assms, of None]
  by (simp add: Collect_def Close_def Rows_Close_def)

text \<open>Every return of \<open>Collect\<close> of \<open>sql.go\<close> has called \<open>Close\<close> once.\<close>

lemma Collect_closes_once:
  assumes "rows it = Some c"
  shows "\<exists>res it' c'. Collect it = Inr (res, it') \<and> rows it' = Some c'
           \<and> closes c' = closes c + 1 \<and> closed c'"
proof -
  obtain res it1 c1 where "Collect_loop it None = Inr (res, it1)" and "rows it1 = Some c1"
    and "closes c1 = closes c"
    using Collect_loop_rows [OF assms, of None] by auto
  then show ?thesis
    by (simp add: Collect_def Close_def Rows_Close_def)
qed

lemma Collect_panics_iff: "Collect it = Inl NilPointerDereference \<longleftrightarrow> rows it = None"
proof (cases "rows it")
  case None
  show ?thesis
  proof (cases "err it")
    case (Some e)
    then show ?thesis
      using None by (simp add: Collect_def Collect_loop_recorded Close_def)
  next
    case n: None
    then show ?thesis
      using None by (simp add: Collect_def Collect_loop_nil)
  qed
next
  case (Some c)
  then show ?thesis
    using Collect_closes_once [OF Some] by auto
qed

lemma Close_panics_iff: "Close it = Inl NilPointerDereference \<longleftrightarrow> rows it = None"
  by (simp add: Close_def split: option.splits prod.splits)

lemma scanAll_not_nil: "dest \<noteq> None \<Longrightarrow> fst (scanAll rs fault dest) \<noteq> None"
  by (induction rs fault dest rule: scanAll.induct) (auto simp: append_slice_def split: option.splits)

lemma List_not_nil: "fst (List ctx db q) \<noteq> None"
proof (cases "db ctx q")
  case (Inl e)
  then show ?thesis
    by (simp add: List_def SelectContext_def)
next
  case (Inr rs)
  have "fst (scanAll (fst rs) (snd rs) (Some [])) \<noteq> None"
    by (rule scanAll_not_nil) simp
  then show ?thesis
    using Inr by (simp add: List_def SelectContext_def split: prod.splits)
qed

section \<open>List and Iterator: the claims\<close>

text \<open>
  C7 (as stated). A query that succeeds with zero rows would make \<open>Collect\<close> return a
  non-nil empty slice. It does not: \<open>Collect\<close> starts from \<open>var result []T\<close> and appends
  nothing, so it returns the nil slice, with no error.
\<close>

theorem C7_counterexample:
  "library () ''SELECT * FROM book WHERE year < 0'' = Inr ([], None)
   \<and> Collect (Iterate () library ''SELECT * FROM book WHERE year < 0'') =
       Inr ((None, None),
         \<lparr>err = None,
          rows = Some \<lparr>feed = [], end_err = None, current = None, lasterr = None,
            closed = True, closes = 1\<rparr>\<rparr>)"
  by (subst Collect_def, subst Collect_loop.simps)
    (simp add: library_def Iterate_def QueryxContext_def open_cursor_def it_ops)

text \<open>
  C7 (as amended). For a query that succeeds with zero rows, \<open>List\<close> returns a non-nil
  empty slice and no error, and \<open>Collect\<close> returns no error and the nil slice (and has
  closed the cursor). \<open>List\<close> never returns a nil slice, whatever the query does.
\<close>

theorem C7_zero_rows:
  assumes "db ctx q = Inr ([], None)"
  shows "List ctx db q = (Some [], None)
    \<and> Collect (Iterate ctx db q) =
        Inr ((None, None),
          \<lparr>err = None,
           rows = Some \<lparr>feed = [], end_err = None, current = None, lasterr = None,
             closed = True, closes = 1\<rparr>\<rparr>)
    \<and> fst (List ctx2 db2 q2) \<noteq> None"
proof -
  have l: "List ctx db q = (Some [], None)"
    using assms by (simp add: List_def SelectContext_def)
  have c: "Collect (Iterate ctx db q) =
      Inr ((None, None),
        \<lparr>err = None,
         rows = Some \<lparr>feed = [], end_err = None, current = None, lasterr = None,
           closed = True, closes = 1\<rparr>\<rparr>)"
    using assms
    by (subst Collect_def, subst Collect_loop.simps)
      (simp add: Iterate_def QueryxContext_def open_cursor_def it_ops)
  show ?thesis
    by (simp add: l c List_not_nil)
qed

theorem C7_witness:
  "library () ''SELECT * FROM book WHERE year < 0'' = Inr ([], None)
   \<and> List () library ''SELECT * FROM book WHERE year < 0'' = (Some [], None)
   \<and> Collect (Iterate () library ''SELECT * FROM book WHERE year < 0'') =
       Inr ((None, None),
         \<lparr>err = None,
          rows = Some \<lparr>feed = [], end_err = None, current = None, lasterr = None,
            closed = True, closes = 1\<rparr>\<rparr>)
   \<and> fst (List () library ''SELECT * FROM nowhere'') \<noteq> None"
proof -
  have h: "library () ''SELECT * FROM book WHERE year < 0'' = Inr ([], None)"
    by (simp add: library_def)
  from h C7_zero_rows [of library "()" "''SELECT * FROM book WHERE year < 0''"
      "()" library "''SELECT * FROM nowhere''"]
  show ?thesis
    by simp
qed

text \<open>
  C8, on \<open>Collect\<close> of \<open>pkg/sql.go\<close>. The cursor has four rows and the third does not
  scan. Both versions of \<open>Collect\<close> return the nil slice and the scan error; the one of
  \<open>sql.go\<close> has closed the cursor with one call of \<open>Close\<close>, the one of \<open>pkg/sql.go\<close>
  returns with the cursor open and \<open>Close\<close> never called.
\<close>

theorem C8_pkg_Collect_leaves_cursor_open:
  "Collect_pkg (Rows (Some (open_cursor third_row_fails))) =
     Inr ((None, Some (Error ''scan: year is NULL'')),
       \<lparr>err = None,
        rows = Some \<lparr>feed = [(c1970, None)], end_err = None,
          current = Some (default, Some (Error ''scan: year is NULL'')),
          lasterr = None, closed = False, closes = 0\<rparr>\<rparr>)
   \<and> Collect (Rows (Some (open_cursor third_row_fails))) =
     Inr ((None, Some (Error ''scan: year is NULL'')),
       \<lparr>err = None,
        rows = Some \<lparr>feed = [(c1970, None)], end_err = None, current = None,
          lasterr = None, closed = True, closes = 1\<rparr>\<rparr>)"
proof -
  let ?it = "Rows (Some (open_cursor third_row_fails)) :: Book Iterator"
  let ?c = "open_cursor third_row_fails"
  have h: "err ?it = None" "rows ?it = Some ?c" "\<not> closed ?c" "lasterr ?c = None"
      "feed ?c = [(demo2022, None), (example1980, None)]
         @ (default, Some (Error ''scan: year is NULL'')) # [(c1970, None)]"
      "\<forall>x\<in>set [(demo2022, None :: error option), (example1980, None)]. snd x = None"
    by (simp_all add: Rows_def open_cursor_def third_row_fails_def)
  have "Collect_pkg ?it =
      Inr ((None, Some (Error ''scan: year is NULL'')),
        ?it\<lparr>rows := Some (?c\<lparr>feed := [(c1970, None)],
          current := Some (default, Some (Error ''scan: year is NULL''))\<rparr>)\<rparr>)"
    unfolding Collect_pkg_def by (rule Collect_loop_scan_error [OF h])
  moreover have "Collect ?it =
      Inr ((None, Some (Error ''scan: year is NULL'')),
        ?it\<lparr>rows := Some (?c\<lparr>feed := [(c1970, None)], current := None, closed := True,
          closes := closes ?c + 1\<rparr>)\<rparr>)"
    by (rule Collect_scan_error [OF h])
  ultimately show ?thesis
    by (simp add: Rows_def open_cursor_def third_row_fails_def)
qed

text \<open>
  C9 (as stated). After a row has failed to scan, \<open>Next\<close> would return false. It does
  not: \<open>Get\<close> records nothing in the iterator, and the next \<open>Next\<close> asks the cursor, which
  has a second row.
\<close>

theorem C9_counterexample:
  "Next first_row_fails = Inr (True, first_row_fails_1)
   \<and> Iterator_Get first_row_fails_1 = Inr (default, Some (Error ''scan: year is NULL''))
   \<and> Next first_row_fails_1 = Inr (True, first_row_fails_2)"
  by (simp add: first_row_fails_def first_row_fails_1_def first_row_fails_2_def Rows_def
      open_cursor_def it_ops)

text \<open>
  C9 (as amended). In an iterator whose \<open>err\<close> field holds an error (the error of the
  query's initiation, stored at creation) \<open>Next\<close> returns false and leaves the iterator
  and its cursor as they are, without a look at the cursor (there may be none), and
  \<open>Err\<close> returns that error whatever error the cursor has.
\<close>

theorem C9_recorded_error:
  assumes "err it = Some e"
  shows "Next it = Inr (False, it) \<and> Err it = Inr (Some e)"
  using assms by (simp add: Next_def Err_def)

theorem C9_witness:
  "err recorded_and_cursor = Some (Error ''no such table'')
   \<and> Next recorded_and_cursor = Inr (False, recorded_and_cursor)
   \<and> Err recorded_and_cursor = Inr (Some (Error ''no such table''))"
  using C9_recorded_error [of recorded_and_cursor "Error ''no such table''"]
  by (simp add: recorded_and_cursor_def)

text \<open>
  C10. An iterator that \<open>Iterate\<close> makes from a query that failed holds the error and a
  nil cursor, and so does the iterator that \<open>NamedStatement.Iterate\<close> makes when the
  statement cannot be prepared; \<open>Close\<close> and \<open>Collect\<close> panic on them. On any iterator,
  \<open>Close\<close> panics exactly when the cursor is nil, and so does \<open>Collect\<close>, whose deferred
  \<open>Close\<close> runs on every path.
\<close>

theorem C10_Close_needs_cursor:
  "(db ctx q = Inl e \<longrightarrow>
      rows (Iterate ctx db q) = None \<and> err (Iterate ctx db q) = Some e
      \<and> Close (Iterate ctx db q) = Inl NilPointerDereference
      \<and> Collect (Iterate ctx db q) = Inl NilPointerDereference)
   \<and> (named arg = Inl e2 \<longrightarrow>
      rows (NamedStatement_Iterate named ctx2 db2 arg) = None
      \<and> Collect (NamedStatement_Iterate named ctx2 db2 arg) = Inl NilPointerDereference)
   \<and> (Close it = Inl NilPointerDereference \<longleftrightarrow> rows it = None)
   \<and> (Collect it2 = Inl NilPointerDereference \<longleftrightarrow> rows it2 = None)"
proof -
  have "rows (Iterate ctx db q) = None \<and> err (Iterate ctx db q) = Some e" if "db ctx q = Inl e"
    using that by (simp add: Iterate_def QueryxContext_def)
  moreover have "rows (NamedStatement_Iterate named ctx2 db2 arg) = None" if "named arg = Inl e2"
    using that by (simp add: NamedStatement_Iterate_def)
  ultimately show ?thesis
    by (simp add: Close_panics_iff Collect_panics_iff)
qed

theorem C10_witness:
  "library () ''SELECT * FROM nowhere'' = Inl (Error ''no such table'')
   \<and> rows (Iterate () library ''SELECT * FROM nowhere'') = None
   \<and> err (Iterate () library ''SELECT * FROM nowhere'') = Some (Error ''no such table'')
   \<and> Close (Iterate () library ''SELECT * FROM nowhere'') = Inl NilPointerDereference
   \<and> Collect (Iterate () library ''SELECT * FROM nowhere'') = Inl NilPointerDereference
   \<and> no_parameter ''author'' = Inl (Error ''could not find name author'')
   \<and> Collect (NamedStatement_Iterate no_parameter () library ''author'') = Inl NilPointerDereference"
proof -
  have h: "library () ''SELECT * FROM nowhere'' = Inl (Error ''no such table'')"
    and k: "no_parameter ''author'' = Inl (Error ''could not find name author'')"
    by (simp_all add: library_def no_parameter_def)
  note t = C10_Close_needs_cursor [of library "()" "''SELECT * FROM nowhere''" "Error ''no such table''"
      no_parameter "''author''" "Error ''could not find name author''" "()" library]
  from t [THEN conjunct1] t [THEN conjunct2, THEN conjunct1] h k
  show ?thesis
    by simp
qed

end
